theory Spec2Isabelle
  imports Complex_Main
begin

section \<open>Chance Encounter: the simulation core of chance\_encounter.py\<close>

text \<open>
  The module moves two agents on a grid; a round ends when they share a cell or swap
  cells in one turn. This theory embeds the simulation logic (helpers, the two step
  functions of the game and the Monte Carlo estimator). Rendering and input handling
  are left out.

  Conventions of the embedding:
  \<^item> \<open>GRID_W\<close> and \<open>GRID_H\<close> are module-level constants, both 12. The functions that read
    them take them as the parameters \<open>W\<close> and \<open>H\<close>; the program is the instance
    \<open>W = GRID_W\<close>, \<open>H = GRID_H\<close>.
  \<^item> The module-global random generator is an explicit state \<open>rng\<close>, passed in and
    returned by everything that draws from it.
  \<^item> Every raise is a value \<open>Inl e\<close> of the result type \<open>py_error + 'a\<close>.
  \<^item> A float is its exact rational value or the sentinel \<open>PosInf\<close> (\<open>float('inf')\<close>);
    the rounding of a quotient to double precision is not modelled.
\<close>

subsection \<open>Configuration\<close>

definition GRID_W :: int where
  "GRID_W = 12"

definition GRID_H :: int where
  "GRID_H = 12"

definition MC_TRIALS :: int where
  "MC_TRIALS = 1000"

definition MC_MAX_STEPS :: int where
  "MC_MAX_STEPS = 2000"

type_synonym rgb = "int \<times> int \<times> int"

definition BLUE :: rgb where
  "BLUE = (76, 161, 255)"

definition RED :: rgb where
  "RED = (255, 92, 92)"

subsection \<open>Data structures\<close>

type_synonym vec = "int \<times> int"

record agent =
  pos :: vec
  prev :: vec
  color :: rgb

datatype py_error = IndexError | ZeroDivisionError

datatype pyfloat = Finite rat | PosInf

text \<open>
  The random source: an infinite sequence of raw draws and the index of the next one.
  \<open>randbelow n\<close> (Python's \<open>Random._randbelow\<close>) yields a number below \<open>n\<close> and advances
  the generator; every sequence of outcomes is the behaviour of some \<open>draws\<close>.
\<close>

datatype rng = Rng (draws: "nat \<Rightarrow> nat") (cursor: nat)

definition randbelow :: "nat \<Rightarrow> rng \<Rightarrow> nat \<times> rng" where
  "randbelow n g = (draws g (cursor g) mod n, Rng (draws g) (Suc (cursor g)))"

text \<open>\<open>random.choice(seq)\<close>: raises IndexError on an empty sequence.\<close>

definition random_choice :: "'a list \<Rightarrow> rng \<Rightarrow> py_error + ('a \<times> rng)" where
  "random_choice xs g =
     (if xs = [] then Inl IndexError
      else (case randbelow (length xs) g of (k, g') \<Rightarrow> Inr (xs ! k, g')))"

text \<open>\<open>a / b\<close> on two ints: raises ZeroDivisionError when \<open>b\<close> is 0.\<close>

definition truediv :: "int \<Rightarrow> int \<Rightarrow> py_error + pyfloat" where
  "truediv a b =
     (if b = 0 then Inl ZeroDivisionError else Inr (Finite (rat_of_int a / rat_of_int b)))"

subsection \<open>Helper functions\<close>

definition in_bounds :: "int \<Rightarrow> int \<Rightarrow> vec \<Rightarrow> bool" where
  "in_bounds W H p = (0 \<le> fst p \<and> fst p < W \<and> 0 \<le> snd p \<and> snd p < H)"

definition neighbors :: "vec \<Rightarrow> vec list" where
  "neighbors p =
     [(fst p + 1, snd p), (fst p - 1, snd p), (fst p, snd p + 1), (fst p, snd p - 1)]"

definition encounter :: "agent \<Rightarrow> agent \<Rightarrow> bool" where
  "encounter a b = (pos a = pos b \<or> (pos a = prev b \<and> pos b = prev a))"

definition valid_moves :: "int \<Rightarrow> int \<Rightarrow> vec \<Rightarrow> vec set \<Rightarrow> vec list" where
  "valid_moves W H p walls =
     (let opts = filter (\<lambda>d. in_bounds W H d \<and> d \<notin> walls) (neighbors p)
      in if opts = [] then [p] else opts)"

definition random_step :: "int \<Rightarrow> int \<Rightarrow> vec \<Rightarrow> vec set \<Rightarrow> rng \<Rightarrow> py_error + (vec \<times> rng)" where
  "random_step W H p walls g = random_choice (valid_moves W H p walls) g"

subsection \<open>Game state\<close>

datatype game_mode = PLAYER_VS_RANDOM | RANDOM_VS_RANDOM

text \<open>
  The fields of \<open>ChanceEncounter\<close> that the simulation reads or writes (the pygame
  handles \<open>screen\<close>, \<open>clock\<close>, \<open>font\<close> and \<open>big\<close> are left out).
\<close>

record game =
  mode :: game_mode
  auto_run :: bool
  turns :: int
  met :: bool
  show_mc :: "(pyfloat \<times> pyfloat) option"
  obstacles_on :: bool
  walls :: "vec set"
  blue :: agent
  red :: agent

text \<open>
  The state after \<open>ChanceEncounter()\<close>: \<open>__init__\<close> sets \<open>obstacles_on\<close> to False and calls
  \<open>reset_round\<close>, which then generates no walls and draws nothing.
\<close>

definition new_game :: "int \<Rightarrow> int \<Rightarrow> game" where
  "new_game W H =
     \<lparr>mode = PLAYER_VS_RANDOM, auto_run = False, turns = 0, met = False, show_mc = None,
      obstacles_on = False, walls = {},
      blue = \<lparr>pos = (0, 0), prev = (0, 0), color = BLUE\<rparr>,
      red = \<lparr>pos = (W - 1, H - 1), prev = (W - 1, H - 1), color = RED\<rparr>\<rparr>"

subsection \<open>Simulation logic\<close>

text \<open>
  \<open>step_random_vs_random\<close>, statement by statement: each line reads the state left by
  the line before it.
\<close>

definition step_random_vs_random ::
  "int \<Rightarrow> int \<Rightarrow> game \<Rightarrow> rng \<Rightarrow> py_error + (game \<times> rng)" where
  "step_random_vs_random W H s g =
     (if met s then Inr (s, g)
      else
        let s1 = s\<lparr>blue := (blue s)\<lparr>prev := pos (blue s)\<rparr>,
                   red := (red s)\<lparr>prev := pos (red s)\<rparr>\<rparr>
        in case random_step W H (pos (blue s1)) (walls s1) g of
             Inl e \<Rightarrow> Inl e
           | Inr (p, g1) \<Rightarrow>
               let s2 = s1\<lparr>blue := (blue s1)\<lparr>pos := p\<rparr>\<rparr>
               in case random_step W H (pos (red s2)) (walls s2) g1 of
                    Inl e \<Rightarrow> Inl e
                  | Inr (q, g2) \<Rightarrow>
                      let s3 = s2\<lparr>red := (red s2)\<lparr>pos := q\<rparr>\<rparr>;
                          s4 = s3\<lparr>turns := turns s3 + 1\<rparr>
                      in Inr (s4\<lparr>met := encounter (blue s4) (red s4)\<rparr>, g2))"

definition step_player_vs_random ::
  "int \<Rightarrow> int \<Rightarrow> game \<Rightarrow> vec \<Rightarrow> rng \<Rightarrow> py_error + (game \<times> rng)" where
  "step_player_vs_random W H s player_dir g =
     (if met s then Inr (s, g)
      else
        let target = (fst (pos (blue s)) + fst player_dir, snd (pos (blue s)) + snd player_dir);
            s1 = (if in_bounds W H target \<and> target \<notin> walls s
                  then s\<lparr>blue := (blue s)\<lparr>prev := pos (blue s), pos := target\<rparr>\<rparr>
                  else s\<lparr>blue := (blue s)\<lparr>prev := pos (blue s)\<rparr>\<rparr>);
            s2 = s1\<lparr>red := (red s1)\<lparr>prev := pos (red s1)\<rparr>\<rparr>
        in case random_step W H (pos (red s2)) (walls s2) g of
             Inl e \<Rightarrow> Inl e
           | Inr (q, g1) \<Rightarrow>
               let s3 = s2\<lparr>red := (red s2)\<lparr>pos := q\<rparr>\<rparr>;
                   s4 = s3\<lparr>turns := turns s3 + 1\<rparr>
               in Inr (s4\<lparr>met := encounter (blue s4) (red s4)\<rparr>, g1))"

subsection \<open>Monte Carlo\<close>

text \<open>
  The inner loop \<open>for _ in range(max_steps)\<close> of one trial, with \<open>n\<close> iterations left.
  It returns the counters \<open>meets\<close> and \<open>total_steps\<close> as the trial leaves them: updated
  at the \<open>break\<close>, unchanged when the range runs out. The loop tests the swap against
  \<open>a_prev\<close> and \<open>b_prev\<close>, which it assigns after the test: on the first turn they are
  the positions before the turn, from the second turn on those of one turn earlier.
\<close>

fun mc_steps ::
  "int \<Rightarrow> int \<Rightarrow> nat \<Rightarrow> vec \<Rightarrow> vec \<Rightarrow> vec \<Rightarrow> vec \<Rightarrow> int \<Rightarrow> int \<Rightarrow> int \<Rightarrow> rng
     \<Rightarrow> py_error + (int \<times> int \<times> rng)" where
  "mc_steps W H 0 a b a_prev b_prev steps meets total_steps g = Inr (meets, total_steps, g)"
| "mc_steps W H (Suc n) a b a_prev b_prev steps meets total_steps g =
     (case random_step W H a {} g of
        Inl e \<Rightarrow> Inl e
      | Inr (a_next, g1) \<Rightarrow>
          (case random_step W H b {} g1 of
             Inl e \<Rightarrow> Inl e
           | Inr (b_next, g2) \<Rightarrow>
               if a_next = b_next \<or> (a_next = b_prev \<and> b_next = a_prev)
               then Inr (meets + 1, total_steps + (steps + 1), g2)
               else mc_steps W H n a_next b_next a b (steps + 1) meets total_steps g2))"

text \<open>The outer loop \<open>for _ in range(trials)\<close>, with \<open>t\<close> trials left.\<close>

fun mc_trials ::
  "int \<Rightarrow> int \<Rightarrow> nat \<Rightarrow> int \<Rightarrow> int \<Rightarrow> int \<Rightarrow> rng \<Rightarrow> py_error + (int \<times> int \<times> rng)" where
  "mc_trials W H 0 max_steps meets total_steps g = Inr (meets, total_steps, g)"
| "mc_trials W H (Suc t) max_steps meets total_steps g =
     (case mc_steps W H (nat max_steps) (0, 0) (W - 1, H - 1) (0, 0) (W - 1, H - 1) 0
             meets total_steps g of
        Inl e \<Rightarrow> Inl e
      | Inr (meets', total_steps', g') \<Rightarrow> mc_trials W H t max_steps meets' total_steps' g')"

text \<open>
  \<open>monte_carlo(self, trials, max_steps)\<close> returns \<open>(avg_steps, meet_rate)\<close>; the model
  returns the generator state as well. \<open>range(n)\<close> is empty for \<open>n \<le> 0\<close>.
\<close>

definition monte_carlo ::
  "int \<Rightarrow> int \<Rightarrow> game \<Rightarrow> int \<Rightarrow> int \<Rightarrow> rng \<Rightarrow> py_error + ((pyfloat \<times> pyfloat) \<times> rng)" where
  "monte_carlo W H self trials max_steps g =
     (case mc_trials W H (nat trials) max_steps 0 0 g of
        Inl e \<Rightarrow> Inl e
      | Inr (meets, total_steps, g') \<Rightarrow>
          (case (if trials \<noteq> 0 then truediv meets trials else Inr (Finite 0)) of
             Inl e \<Rightarrow> Inl e
           | Inr meet_rate \<Rightarrow>
               (case (if meets \<noteq> 0 then truediv total_steps meets else Inr PosInf) of
                  Inl e \<Rightarrow> Inl e
                | Inr avg_steps \<Rightarrow> Inr ((avg_steps, meet_rate), g'))))"

subsection \<open>The turn in the words of the specification\<close>

text \<open>
  \<open>advanceTurn(agentA, agentB, world)\<close> as the specification describes it, for comparison
  with the step functions above: both next positions are computed from the two agents
  as they are before the turn, then both agents are replaced at once and the encounter
  test is evaluated on the new pair.
\<close>

definition spec_advanceTurn ::
  "int \<Rightarrow> int \<Rightarrow> agent \<Rightarrow> agent \<Rightarrow> vec set \<Rightarrow> rng
     \<Rightarrow> py_error + (agent \<times> agent \<times> bool \<times> rng)" where
  "spec_advanceTurn W H agentA agentB ws g =
     (case random_step W H (pos agentA) ws g of
        Inl e \<Rightarrow> Inl e
      | Inr (na, g1) \<Rightarrow>
          (case random_step W H (pos agentB) ws g1 of
             Inl e \<Rightarrow> Inl e
           | Inr (nb, g2) \<Rightarrow>
               let newA = agentA\<lparr>prev := pos agentA, pos := na\<rparr>;
                   newB = agentB\<lparr>prev := pos agentB, pos := nb\<rparr>
               in Inr (newA, newB, encounter newA newB, g2)))"

subsection \<open>The trials as walks on the open field\<close>

text \<open>
  A second description of the Monte Carlo batch, by turn number instead of by loop
  state. \<open>random_pick\<close> and \<open>random_next\<close> are the element and the generator that a
  choice from a non-empty list yields.

  \<open>open_field_walk W H g k\<close>: where the two agents of a trial stand after \<open>k\<close> turns and
  what the generator is then, when \<open>g\<close> is the generator at the start of the trial. The
  walk starts at (0,0) and (W-1,H-1) and every turn draws first for the one, then for
  the other, from the legal moves under the empty wall set.

  \<open>open_field_hit W H g k\<close>: turn \<open>k\<close> passes the test of the loop. The agents share a
  cell, or each stands where the other stood at turn \<open>k - 2\<close>, which is the start of the
  trial for the first two turns: these are the cells that \<open>a_prev\<close> and \<open>b_prev\<close> hold
  when turn \<open>k\<close> is tested.

  \<open>open_field_trial\<close>: the first turn up to the cap that passes the test, if there is
  one, and the generator after that turn (after the whole cap if there is none).
  \<open>open_field_counts\<close>: the number of trials that met and the sum of their turn numbers,
  each trial starting with the generator the one before it left.
\<close>

definition random_pick :: "'a list \<Rightarrow> rng \<Rightarrow> 'a" where
  "random_pick xs g = xs ! (draws g (cursor g) mod length xs)"

definition random_next :: "rng \<Rightarrow> rng" where
  "random_next g = Rng (draws g) (Suc (cursor g))"

fun open_field_walk :: "int \<Rightarrow> int \<Rightarrow> rng \<Rightarrow> nat \<Rightarrow> vec \<times> vec \<times> rng" where
  "open_field_walk W H g 0 = ((0, 0), (W - 1, H - 1), g)"
| "open_field_walk W H g (Suc k) =
     (case open_field_walk W H g k of
        (a, b, g0) \<Rightarrow>
          (random_pick (valid_moves W H a {}) g0,
           random_pick (valid_moves W H b {}) (random_next g0),
           random_next (random_next g0)))"

definition open_field_hit :: "int \<Rightarrow> int \<Rightarrow> rng \<Rightarrow> nat \<Rightarrow> bool" where
  "open_field_hit W H g k =
     (case open_field_walk W H g k of
        (a, b, _) \<Rightarrow>
          (case open_field_walk W H g (k - 2) of
             (pa, pb, _) \<Rightarrow> a = b \<or> (a = pb \<and> b = pa)))"

definition open_field_trial :: "int \<Rightarrow> int \<Rightarrow> nat \<Rightarrow> rng \<Rightarrow> nat option \<times> rng" where
  "open_field_trial W H cap g =
     (case find (open_field_hit W H g) [1..<Suc cap] of
        None \<Rightarrow> (None, snd (snd (open_field_walk W H g cap)))
      | Some k \<Rightarrow> (Some k, snd (snd (open_field_walk W H g k))))"

fun open_field_counts :: "int \<Rightarrow> int \<Rightarrow> nat \<Rightarrow> nat \<Rightarrow> rng \<Rightarrow> int \<times> int \<times> rng" where
  "open_field_counts W H cap 0 g = (0, 0, g)"
| "open_field_counts W H cap (Suc t) g =
     (case open_field_trial W H cap g of
        (r, g1) \<Rightarrow>
          (case open_field_counts W H cap t g1 of
             (m, st, g') \<Rightarrow>
               (case r of
                  None \<Rightarrow> (m, st, g')
                | Some k \<Rightarrow> (m + 1, st + int k, g'))))"

subsection \<open>Concrete random sources\<close>

text \<open>
  \<open>zero_draws\<close>: every raw draw is 0, so every choice takes the first option.
  \<open>walk_draws\<close>: over the first 22 draws agent a takes its first option (one cell to the
  right) and agent b its last one (one cell up), which brings both to (11,0) after
  11 turns on the 12 by 12 grid; every later draw is 0.
  \<open>count_draws\<close>: the draws are 0, 1, 2, ...
\<close>

definition zero_draws :: rng where
  "zero_draws = Rng (\<lambda>i. 0) 0"

definition walk_draws :: rng where
  "walk_draws = Rng (\<lambda>i. if 22 \<le> i \<or> even i then 0 else 5) 0"

definition count_draws :: rng where
  "count_draws = Rng (\<lambda>i. i) 0"

section \<open>Auxiliary facts\<close>

subsection \<open>Random steps never fail\<close>

lemma valid_moves_nonempty: "valid_moves W H p ws \<noteq> []"
  by (simp add: valid_moves_def Let_def)

lemma neighbors_adjacent:
  "d \<in> set (neighbors p) \<Longrightarrow> \<bar>fst d - fst p\<bar> + \<bar>snd d - snd p\<bar> = 1"
  by (auto simp: neighbors_def)

lemma random_choice_Inr:
  "xs \<noteq> [] \<Longrightarrow>
   random_choice xs g =
     Inr (xs ! (draws g (cursor g) mod length xs), Rng (draws g) (Suc (cursor g)))"
  by (simp add: random_choice_def randbelow_def)

lemma random_step_Inr:
  "random_step W H p ws g =
     Inr (valid_moves W H p ws ! (draws g (cursor g) mod length (valid_moves W H p ws)),
          Rng (draws g) (Suc (cursor g)))"
  by (simp add: random_step_def random_choice_Inr valid_moves_nonempty)

lemma random_step_ex:
  "\<exists>q g'. random_step W H p ws g = Inr (q, g') \<and> q \<in> set (valid_moves W H p ws)
      \<and> draws g' = draws g \<and> cursor g' = Suc (cursor g)"
  by (simp add: random_step_Inr valid_moves_nonempty)

subsection \<open>Counters of the Monte Carlo loops\<close>

text \<open>
  One trial either meets at some turn \<open>k\<close> between 1 and the cap, adds 1 to \<open>meets\<close> and
  \<open>steps + k\<close> to the step sum and has drawn exactly \<open>2 * k\<close> times, or it leaves both
  counters alone and has drawn twice per turn of the cap.
\<close>

lemma mc_steps_result:
  "\<exists>meets' tot' g'.
     mc_steps W H n a b ap bp steps meets tot g = Inr (meets', tot', g')
     \<and> draws g' = draws g
     \<and> ((meets' = meets + 1 \<and>
          (\<exists>k. 1 \<le> k \<and> k \<le> n \<and> tot' = tot + (steps + int k)
               \<and> cursor g' = cursor g + 2 * k))
        \<or> (meets' = meets \<and> tot' = tot \<and> cursor g' = cursor g + 2 * n))"
proof (induction n arbitrary: a b ap bp steps g)
  case 0
  show ?case by simp
next
  case (Suc n)
  obtain a' g1 where a': "random_step W H a {} g = Inr (a', g1)"
    and g1: "draws g1 = draws g" "cursor g1 = Suc (cursor g)"
    using random_step_ex [of W H a "{}" g] by blast
  obtain b' g2 where b': "random_step W H b {} g1 = Inr (b', g2)"
    and g2: "draws g2 = draws g1" "cursor g2 = Suc (cursor g1)"
    using random_step_ex [of W H b "{}" g1] by blast
  show ?case
  proof (cases "a' = b' \<or> (a' = bp \<and> b' = ap)")
    case True
    then have "mc_steps W H (Suc n) a b ap bp steps meets tot g
                 = Inr (meets + 1, tot + (steps + 1), g2)"
      by (simp add: a' b')
    moreover have "1 \<le> (1::nat) \<and> 1 \<le> Suc n \<and> tot + (steps + 1) = tot + (steps + int 1)
                   \<and> cursor g2 = cursor g + 2 * 1"
      by (simp add: g1 g2)
    moreover have "draws g2 = draws g" by (simp add: g1 g2)
    ultimately show ?thesis by blast
  next
    case False
    then have eq: "mc_steps W H (Suc n) a b ap bp steps meets tot g
                 = mc_steps W H n a' b' a b (steps + 1) meets tot g2"
      by (auto simp: a' b')
    from Suc.IH [of a' b' a b "steps + 1" g2]
    obtain meets' tot' g' where
      r: "mc_steps W H n a' b' a b (steps + 1) meets tot g2 = Inr (meets', tot', g')"
      and d: "draws g' = draws g2"
      and c: "(meets' = meets + 1 \<and>
               (\<exists>k. 1 \<le> k \<and> k \<le> n \<and> tot' = tot + (steps + 1 + int k)
                    \<and> cursor g' = cursor g2 + 2 * k))
              \<or> (meets' = meets \<and> tot' = tot \<and> cursor g' = cursor g2 + 2 * n)"
      by blast
    from c have "(meets' = meets + 1 \<and>
               (\<exists>k. 1 \<le> k \<and> k \<le> Suc n \<and> tot' = tot + (steps + int k)
                    \<and> cursor g' = cursor g + 2 * k))
              \<or> (meets' = meets \<and> tot' = tot \<and> cursor g' = cursor g + 2 * Suc n)"
    proof
      assume "meets' = meets + 1 \<and>
               (\<exists>k. 1 \<le> k \<and> k \<le> n \<and> tot' = tot + (steps + 1 + int k)
                    \<and> cursor g' = cursor g2 + 2 * k)"
      then obtain k where m: "meets' = meets + 1" and k: "1 \<le> k" "k \<le> n"
        "tot' = tot + (steps + 1 + int k)" "cursor g' = cursor g2 + 2 * k"
        by blast
      have "1 \<le> Suc k \<and> Suc k \<le> Suc n \<and> tot' = tot + (steps + int (Suc k))
            \<and> cursor g' = cursor g + 2 * Suc k"
        using k by (simp add: g1 g2)
      with m show ?thesis by blast
    next
      assume "meets' = meets \<and> tot' = tot \<and> cursor g' = cursor g2 + 2 * n"
      then show ?thesis by (simp add: g1 g2)
    qed
    with eq r d show ?thesis by (simp add: g1 g2)
  qed
qed

lemma mc_trials_result:
  "\<exists>meets' tot' g'.
     mc_trials W H t max_steps meets tot g = Inr (meets', tot', g')
     \<and> draws g' = draws g
     \<and> meets \<le> meets' \<and> meets' \<le> meets + int t
     \<and> meets' - meets \<le> tot' - tot
     \<and> tot' - tot \<le> (meets' - meets) * int (nat max_steps)"
proof (induction t arbitrary: meets tot g)
  case 0
  show ?case by simp
next
  case (Suc t)
  from mc_steps_result [of W H "nat max_steps" "(0, 0)" "(W - 1, H - 1)" "(0, 0)"
      "(W - 1, H - 1)" 0 meets tot g]
  obtain m1 t1 g1 where
    r1: "mc_steps W H (nat max_steps) (0, 0) (W - 1, H - 1) (0, 0) (W - 1, H - 1) 0 meets tot g
           = Inr (m1, t1, g1)"
    and d1: "draws g1 = draws g"
    and c1: "(m1 = meets + 1 \<and>
               (\<exists>k. 1 \<le> k \<and> k \<le> nat max_steps \<and> t1 = tot + (0 + int k)
                    \<and> cursor g1 = cursor g + 2 * k))
             \<or> (m1 = meets \<and> t1 = tot \<and> cursor g1 = cursor g + 2 * nat max_steps)"
    by blast
  from c1 have b1: "meets \<le> m1 \<and> m1 \<le> meets + 1 \<and> m1 - meets \<le> t1 - tot
                    \<and> t1 - tot \<le> (m1 - meets) * int (nat max_steps)"
    by auto
  from Suc.IH [of m1 t1 g1]
  obtain m2 t2 g2 where
    r2: "mc_trials W H t max_steps m1 t1 g1 = Inr (m2, t2, g2)"
    and d2: "draws g2 = draws g1"
    and b2: "m1 \<le> m2" "m2 \<le> m1 + int t" "m2 - m1 \<le> t2 - t1"
            "t2 - t1 \<le> (m2 - m1) * int (nat max_steps)"
    by blast
  have "mc_trials W H (Suc t) max_steps meets tot g = Inr (m2, t2, g2)"
    by (simp add: r1 r2)
  moreover have "draws g2 = draws g" by (simp add: d1 d2)
  moreover have "meets \<le> m2" using b1 b2 by linarith
  moreover have "m2 \<le> meets + int (Suc t)" using b1 b2 by simp
  moreover have "m2 - meets \<le> t2 - tot" using b1 b2 by linarith
  moreover have "t2 - tot \<le> (m2 - meets) * int (nat max_steps)"
  proof -
    have "t2 - tot = (t2 - t1) + (t1 - tot)" by simp
    also have "\<dots> \<le> (m2 - m1) * int (nat max_steps) + (m1 - meets) * int (nat max_steps)"
      using b1 b2 by linarith
    also have "\<dots> = (m2 - meets) * int (nat max_steps)"
      by (simp add: algebra_simps)
    finally show ?thesis .
  qed
  ultimately show ?case by blast
qed

lemma mc_trials_no_steps:
  "max_steps \<le> 0 \<Longrightarrow> mc_trials W H t max_steps meets tot g = Inr (meets, tot, g)"
  by (induction t) simp_all

subsection \<open>Random sources with the same future\<close>

text \<open>
  Two generators that will deliver the same draws from their cursors on lead every
  loop to the same counters, and leave generators that again agree on what follows.
\<close>

lemma random_step_same:
  assumes "\<forall>i. draws g1 (cursor g1 + i) = draws g2 (cursor g2 + i)"
  shows "\<exists>q h1 h2. random_step W H p ws g1 = Inr (q, h1)
           \<and> random_step W H p ws g2 = Inr (q, h2)
           \<and> (\<forall>i. draws h1 (cursor h1 + i) = draws h2 (cursor h2 + i))"
proof -
  from assms have "draws g1 (cursor g1 + 0) = draws g2 (cursor g2 + 0)" by blast
  then have d0: "draws g1 (cursor g1) = draws g2 (cursor g2)" by simp
  have "\<forall>i. draws g1 (Suc (cursor g1) + i) = draws g2 (Suc (cursor g2) + i)"
  proof
    fix i
    from assms have "draws g1 (cursor g1 + Suc i) = draws g2 (cursor g2 + Suc i)" by blast
    then show "draws g1 (Suc (cursor g1) + i) = draws g2 (Suc (cursor g2) + i)" by simp
  qed
  then show ?thesis
    by (simp add: random_step_Inr d0)
qed

lemma mc_steps_same:
  assumes "\<forall>i. draws g1 (cursor g1 + i) = draws g2 (cursor g2 + i)"
  shows "\<exists>m t h1 h2. mc_steps W H n a b ap bp steps meets tot g1 = Inr (m, t, h1)
           \<and> mc_steps W H n a b ap bp steps meets tot g2 = Inr (m, t, h2)
           \<and> (\<forall>i. draws h1 (cursor h1 + i) = draws h2 (cursor h2 + i))"
  using assms
proof (induction n arbitrary: a b ap bp steps g1 g2)
  case 0
  then show ?case by simp
next
  case (Suc n)
  from random_step_same [OF Suc.prems, of W H a "{}"]
  obtain a' k1 k2 where a1: "random_step W H a {} g1 = Inr (a', k1)"
    and a2: "random_step W H a {} g2 = Inr (a', k2)"
    and ka: "\<forall>i. draws k1 (cursor k1 + i) = draws k2 (cursor k2 + i)"
    by blast
  from random_step_same [OF ka, of W H b "{}"]
  obtain b' l1 l2 where b1: "random_step W H b {} k1 = Inr (b', l1)"
    and b2: "random_step W H b {} k2 = Inr (b', l2)"
    and lb: "\<forall>i. draws l1 (cursor l1 + i) = draws l2 (cursor l2 + i)"
    by blast
  show ?case
  proof (cases "a' = b' \<or> (a' = bp \<and> b' = ap)")
    case True
    then have "mc_steps W H (Suc n) a b ap bp steps meets tot g1
                 = Inr (meets + 1, tot + (steps + 1), l1)"
      and "mc_steps W H (Suc n) a b ap bp steps meets tot g2
                 = Inr (meets + 1, tot + (steps + 1), l2)"
      by (simp_all add: a1 a2 b1 b2)
    with lb show ?thesis by blast
  next
    case False
    then have "mc_steps W H (Suc n) a b ap bp steps meets tot g1
                 = mc_steps W H n a' b' a b (steps + 1) meets tot l1"
      and "mc_steps W H (Suc n) a b ap bp steps meets tot g2
                 = mc_steps W H n a' b' a b (steps + 1) meets tot l2"
      by (auto simp: a1 a2 b1 b2)
    with Suc.IH [OF lb, of a' b' a b "steps + 1"] show ?thesis by simp
  qed
qed

lemma mc_trials_same:
  assumes "\<forall>i. draws g1 (cursor g1 + i) = draws g2 (cursor g2 + i)"
  shows "\<exists>m t h1 h2. mc_trials W H n max_steps meets tot g1 = Inr (m, t, h1)
           \<and> mc_trials W H n max_steps meets tot g2 = Inr (m, t, h2)
           \<and> (\<forall>i. draws h1 (cursor h1 + i) = draws h2 (cursor h2 + i))"
  using assms
proof (induction n arbitrary: meets tot g1 g2)
  case 0
  then show ?case by simp
next
  case (Suc n)
  from mc_steps_same [OF Suc.prems, of W H "nat max_steps" "(0, 0)" "(W - 1, H - 1)" "(0, 0)"
      "(W - 1, H - 1)" 0 meets tot]
  obtain m t k1 k2 where
    s1: "mc_steps W H (nat max_steps) (0, 0) (W - 1, H - 1) (0, 0) (W - 1, H - 1) 0 meets tot g1
           = Inr (m, t, k1)"
    and s2: "mc_steps W H (nat max_steps) (0, 0) (W - 1, H - 1) (0, 0) (W - 1, H - 1) 0 meets tot g2
           = Inr (m, t, k2)"
    and k: "\<forall>i. draws k1 (cursor k1 + i) = draws k2 (cursor k2 + i)"
    by blast
  from Suc.IH [OF k, of m t] show ?case
    by (simp add: s1 s2)
qed

subsection \<open>The loops follow the open-field walk\<close>

text \<open>
  After \<open>j\<close> turns of a trial the loop state is the walk at \<open>j\<close>, with the walk at \<open>j - 1\<close>
  as previous positions and \<open>j\<close> as step count; from there the loop stops at the first
  later turn that passes the test.
\<close>

lemma random_step_pick:
  "random_step W H p ws g = Inr (random_pick (valid_moves W H p ws) g, random_next g)"
  by (simp add: random_step_Inr random_pick_def random_next_def)

lemma open_field_walk_Suc:
  "fst (open_field_walk W H g (Suc k))
     = random_pick (valid_moves W H (fst (open_field_walk W H g k)) {})
         (snd (snd (open_field_walk W H g k)))"
  "fst (snd (open_field_walk W H g (Suc k)))
     = random_pick (valid_moves W H (fst (snd (open_field_walk W H g k))) {})
         (random_next (snd (snd (open_field_walk W H g k))))"
  "snd (snd (open_field_walk W H g (Suc k)))
     = random_next (random_next (snd (snd (open_field_walk W H g k))))"
  by (simp_all add: case_prod_beta)

lemma open_field_hit_Suc:
  "open_field_hit W H g (Suc j) \<longleftrightarrow>
     fst (open_field_walk W H g (Suc j)) = fst (snd (open_field_walk W H g (Suc j)))
     \<or> (fst (open_field_walk W H g (Suc j)) = fst (snd (open_field_walk W H g (j - 1)))
        \<and> fst (snd (open_field_walk W H g (Suc j))) = fst (open_field_walk W H g (j - 1)))"
proof -
  have "Suc j - 2 = j - 1" by simp
  then show ?thesis
    unfolding open_field_hit_def by (simp only: case_prod_beta)
qed

lemma mc_steps_walk:
  "mc_steps W H n
      (fst (open_field_walk W H g j)) (fst (snd (open_field_walk W H g j)))
      (fst (open_field_walk W H g (j - 1))) (fst (snd (open_field_walk W H g (j - 1))))
      (int j) meets tot (snd (snd (open_field_walk W H g j)))
   = (case find (open_field_hit W H g) [Suc j..<Suc (j + n)] of
        None \<Rightarrow> Inr (meets, tot, snd (snd (open_field_walk W H g (j + n))))
      | Some k \<Rightarrow> Inr (meets + 1, tot + int k, snd (snd (open_field_walk W H g k))))"
proof (induction n arbitrary: j)
  case 0
  show ?case by simp
next
  case (Suc n)
  let ?a = "fst (open_field_walk W H g j)"
  let ?b = "fst (snd (open_field_walk W H g j))"
  let ?g0 = "snd (snd (open_field_walk W H g j))"
  let ?a' = "fst (open_field_walk W H g (Suc j))"
  let ?b' = "fst (snd (open_field_walk W H g (Suc j)))"
  let ?g2 = "snd (snd (open_field_walk W H g (Suc j)))"
  let ?pa = "fst (open_field_walk W H g (j - 1))"
  let ?pb = "fst (snd (open_field_walk W H g (j - 1)))"
  have ra: "random_step W H ?a {} ?g0 = Inr (?a', random_next ?g0)"
    by (simp only: random_step_pick open_field_walk_Suc)
  have rb: "random_step W H ?b {} (random_next ?g0) = Inr (?b', ?g2)"
    by (simp only: random_step_pick open_field_walk_Suc)
  have unfold: "mc_steps W H (Suc n) ?a ?b ?pa ?pb (int j) meets tot ?g0
      = (if ?a' = ?b' \<or> (?a' = ?pb \<and> ?b' = ?pa)
         then Inr (meets + 1, tot + (int j + 1), ?g2)
         else mc_steps W H n ?a' ?b' ?a ?b (int j + 1) meets tot ?g2)"
    by (simp only: mc_steps.simps ra rb sum.case prod.case)
  have range: "[Suc j..<Suc (j + Suc n)] = Suc j # [Suc (Suc j)..<Suc (Suc j + n)]"
    by (simp add: upt_conv_Cons)
  show ?case
  proof (cases "open_field_hit W H g (Suc j)")
    case True
    then have c: "?a' = ?b' \<or> (?a' = ?pb \<and> ?b' = ?pa)"
      using open_field_hit_Suc [of W H g j] by blast
    have "mc_steps W H (Suc n) ?a ?b ?pa ?pb (int j) meets tot ?g0
            = Inr (meets + 1, tot + (int j + 1), ?g2)"
      by (simp only: unfold c if_True)
    moreover have "find (open_field_hit W H g) [Suc j..<Suc (j + Suc n)] = Some (Suc j)"
      using True by (simp only: range find.simps if_True)
    moreover have "int j + 1 = int (Suc j)" by simp
    ultimately show ?thesis by (simp only: option.case)
  next
    case False
    then have c: "\<not> (?a' = ?b' \<or> (?a' = ?pb \<and> ?b' = ?pa))"
      using open_field_hit_Suc [of W H g j] by blast
    have e1: "Suc j - 1 = j" by simp
    have e2: "int j + 1 = int (Suc j)" by simp
    have e3: "Suc j + n = j + Suc n" by simp
    have fnd: "find (open_field_hit W H g) [Suc j..<Suc (j + Suc n)]
                 = find (open_field_hit W H g) [Suc (Suc j)..<Suc (Suc j + n)]"
      using False by (simp only: range find.simps if_False)
    have "mc_steps W H (Suc n) ?a ?b ?pa ?pb (int j) meets tot ?g0
            = mc_steps W H n ?a' ?b' ?a ?b (int j + 1) meets tot ?g2"
      by (simp only: unfold c if_False)
    also have "\<dots> = mc_steps W H n ?a' ?b'
                       (fst (open_field_walk W H g (Suc j - 1)))
                       (fst (snd (open_field_walk W H g (Suc j - 1))))
                       (int (Suc j)) meets tot ?g2"
      by (simp only: e1 e2)
    also have "\<dots> = (case find (open_field_hit W H g) [Suc (Suc j)..<Suc (Suc j + n)] of
        None \<Rightarrow> Inr (meets, tot, snd (snd (open_field_walk W H g (Suc j + n))))
      | Some k \<Rightarrow> Inr (meets + 1, tot + int k, snd (snd (open_field_walk W H g k))))"
      by (rule Suc.IH)
    finally show ?thesis by (simp only: fnd e3)
  qed
qed

lemma mc_steps_open_field_trial:
  "mc_steps W H n (0, 0) (W - 1, H - 1) (0, 0) (W - 1, H - 1) 0 meets tot g
   = (case open_field_trial W H n g of
        (None, g1) \<Rightarrow> Inr (meets, tot, g1)
      | (Some k, g1) \<Rightarrow> Inr (meets + 1, tot + int k, g1))"
  using mc_steps_walk [of W H n g 0 meets tot]
  by (simp add: open_field_trial_def split: option.splits)

lemma mc_trials_open_field_counts:
  "mc_trials W H t max_steps meets tot g
   = (case open_field_counts W H (nat max_steps) t g of
        (m, st, g') \<Rightarrow> Inr (meets + m, tot + st, g'))"
proof (induction t arbitrary: meets tot g)
  case 0
  show ?case by simp
next
  case (Suc t)
  show ?case
    by (simp add: mc_steps_open_field_trial Suc.IH split: prod.splits option.splits)
qed

subsection \<open>Evaluation on the 12 by 12 grid\<close>

lemma length2: "length [a, b] = 2" by simp

lemma length3: "length [a, b, c] = 3" by simp

lemma length4: "length [a, b, c, d] = 4" by simp

lemma mc_steps_numeral:
  "mc_steps W H (numeral k) a b ap bp steps meets tot g =
     (case random_step W H a {} g of
        Inl e \<Rightarrow> Inl e
      | Inr (a_next, g1) \<Rightarrow>
          (case random_step W H b {} g1 of
             Inl e \<Rightarrow> Inl e
           | Inr (b_next, g2) \<Rightarrow>
               if a_next = b_next \<or> (a_next = bp \<and> b_next = ap)
               then Inr (meets + 1, tot + (steps + 1), g2)
               else mc_steps W H (pred_numeral k) a_next b_next a b (steps + 1) meets tot g2))"
  by (simp add: numeral_eq_Suc)

lemma mc_trials_numeral:
  "mc_trials W H (numeral k) max_steps meets tot g =
     (case mc_steps W H (nat max_steps) (0, 0) (W - 1, H - 1) (0, 0) (W - 1, H - 1) 0
             meets tot g of
        Inl e \<Rightarrow> Inl e
      | Inr (meets', tot', g') \<Rightarrow> mc_trials W H (pred_numeral k) max_steps meets' tot' g')"
  by (simp add: numeral_eq_Suc)

lemma walk_trial_meets:
  "mc_steps 12 12 11 (0, 0) (11, 11) (0, 0) (11, 11) 0 0 0 walk_draws
     = Inr (1, 11, Rng (draws walk_draws) 22)"
  by (simp add: mc_steps_numeral random_step_def random_choice_def randbelow_def
        valid_moves_def neighbors_def in_bounds_def walk_draws_def
        del: length_Cons list.size add: length2 length3 length4)

lemma walk_trial_misses:
  "mc_steps 12 12 11 (0, 0) (11, 11) (0, 0) (11, 11) 0 1 11 (Rng (draws walk_draws) 22)
     = Inr (1, 11, Rng (draws walk_draws) 44)"
  by (simp add: mc_steps_numeral random_step_def random_choice_def randbelow_def
        valid_moves_def neighbors_def in_bounds_def walk_draws_def
        del: length_Cons list.size add: length2 length3 length4)

lemma walk_batch:
  "mc_trials GRID_W GRID_H 2 11 0 0 walk_draws = Inr (1, 11, Rng (draws walk_draws) 44)"
  by (simp add: GRID_W_def GRID_H_def mc_trials_numeral walk_trial_meets walk_trial_misses)

lemma walk_batch_short:
  "mc_trials GRID_W GRID_H 2 1 0 0 walk_draws = Inr (0, 0, Rng (draws walk_draws) 4)"
  by (simp add: GRID_W_def GRID_H_def mc_trials_numeral mc_steps_numeral random_step_def
        random_choice_def randbelow_def
        valid_moves_def neighbors_def in_bounds_def walk_draws_def
        del: length_Cons list.size add: length2 length3 length4)

lemma zero_step_blue:
  "random_step GRID_W GRID_H (0, 0) {} zero_draws = Inr ((1, 0), Rng (draws zero_draws) 1)"
  by (simp add: random_step_def random_choice_def randbelow_def valid_moves_def neighbors_def
        in_bounds_def zero_draws_def GRID_W_def GRID_H_def)

lemma zero_step_red:
  "random_step GRID_W GRID_H (11, 11) {} (Rng (draws zero_draws) k)
     = Inr ((10, 11), Rng (draws zero_draws) (Suc k))"
  by (simp add: random_step_def random_choice_def randbelow_def valid_moves_def neighbors_def
        in_bounds_def zero_draws_def GRID_W_def GRID_H_def)

lemma count_step_a:
  "random_step GRID_W GRID_H (0, 0) {} count_draws = Inr ((1, 0), Rng (draws count_draws) 1)"
  by (simp add: random_step_def random_choice_def randbelow_def valid_moves_def neighbors_def
        in_bounds_def count_draws_def GRID_W_def GRID_H_def)

lemma count_step_b:
  "random_step GRID_W GRID_H (1, 0) {} (Rng (draws count_draws) 1)
     = Inr ((0, 0), Rng (draws count_draws) 2)"
  by (simp add: random_step_def random_choice_def randbelow_def valid_moves_def neighbors_def
        in_bounds_def count_draws_def GRID_W_def GRID_H_def
        del: length_Cons list.size add: length2 length3 length4)

lemma walk_trial_meets_early:
  "mc_steps GRID_W GRID_H 20 (0, 0) (11, 11) (0, 0) (11, 11) 0 0 0 walk_draws
     = Inr (0 + 1, 11, Rng (draws walk_draws) 22)"
  by (simp add: GRID_W_def GRID_H_def mc_steps_numeral random_step_def random_choice_def
        randbelow_def valid_moves_def neighbors_def in_bounds_def walk_draws_def
        del: length_Cons list.size add: length2 length3 length4)

lemma open_field_walk_first_turn:
  "open_field_walk GRID_W GRID_H zero_draws (Suc 0)
     = ((1, 0), (10, 11), Rng (draws zero_draws) 2)"
  by (simp add: random_pick_def random_next_def valid_moves_def neighbors_def in_bounds_def
        zero_draws_def GRID_W_def GRID_H_def)

section \<open>Encounter detection\<close>

text \<open>
  C1: \<open>encounter\<close> is true exactly when the two current positions are equal, or each
  agent's current position is the other's previous position. For \<open>a\<close> at (3,3) coming
  from (2,3) and \<open>b\<close> at (2,3) coming from (3,3) it is true although the current
  positions differ.
\<close>

theorem encounter_iff_meet_or_cross:
  "(encounter a b \<longleftrightarrow> pos a = pos b \<or> (pos a = prev b \<and> pos b = prev a))
   \<and> encounter \<lparr>pos = (3, 3), prev = (2, 3), color = BLUE\<rparr>
                \<lparr>pos = (2, 3), prev = (3, 3), color = RED\<rparr>
   \<and> pos \<lparr>pos = (3, 3), prev = (2, 3), color = BLUE\<rparr>
       \<noteq> pos \<lparr>pos = (2, 3), prev = (3, 3), color = RED\<rparr>"
  by (simp add: encounter_def)

section \<open>Legal moves\<close>

text \<open>
  C2: on every grid of width and height at least 1, for every obstacle set and every
  cell \<open>p\<close>, \<open>valid_moves\<close> is non-empty. When \<open>p\<close> has an in-bounds unblocked neighbour,
  every returned position is in bounds, unblocked and at distance 1 from \<open>p\<close> along one
  axis; when it has none, the result is exactly \<open>[p]\<close>.
\<close>

theorem valid_moves_legal:
  assumes "1 \<le> W" and "1 \<le> H"
  shows "valid_moves W H p ws \<noteq> []
     \<and> ((\<exists>d \<in> set (neighbors p). in_bounds W H d \<and> d \<notin> ws) \<longrightarrow>
          (\<forall>d \<in> set (valid_moves W H p ws).
             in_bounds W H d \<and> d \<notin> ws \<and> \<bar>fst d - fst p\<bar> + \<bar>snd d - snd p\<bar> = 1))
     \<and> (\<not> (\<exists>d \<in> set (neighbors p). in_bounds W H d \<and> d \<notin> ws) \<longrightarrow>
          valid_moves W H p ws = [p])"
proof (intro conjI impI)
  show "valid_moves W H p ws \<noteq> []" by (rule valid_moves_nonempty)
next
  assume ex: "\<exists>d \<in> set (neighbors p). in_bounds W H d \<and> d \<notin> ws"
  then have ne: "filter (\<lambda>d. in_bounds W H d \<and> d \<notin> ws) (neighbors p) \<noteq> []"
    by (simp add: filter_empty_conv)
  then have eq: "valid_moves W H p ws = filter (\<lambda>d. in_bounds W H d \<and> d \<notin> ws) (neighbors p)"
    by (simp add: valid_moves_def Let_def)
  show "\<forall>d \<in> set (valid_moves W H p ws).
          in_bounds W H d \<and> d \<notin> ws \<and> \<bar>fst d - fst p\<bar> + \<bar>snd d - snd p\<bar> = 1"
    unfolding eq using neighbors_adjacent by auto
next
  assume "\<not> (\<exists>d \<in> set (neighbors p). in_bounds W H d \<and> d \<notin> ws)"
  then have "filter (\<lambda>d. in_bounds W H d \<and> d \<notin> ws) (neighbors p) = []"
    by (simp add: filter_empty_conv)
  then show "valid_moves W H p ws = [p]"
    by (simp add: valid_moves_def Let_def)
qed

theorem valid_moves_legal_witness:
  "1 \<le> GRID_W \<and> 1 \<le> GRID_H
   \<and> valid_moves GRID_W GRID_H (0, 0) {} = [(1, 0), (0, 1)]
   \<and> in_bounds GRID_W GRID_H (1, 0) \<and> in_bounds GRID_W GRID_H (0, 1)
   \<and> valid_moves GRID_W GRID_H (0, 0) {(1, 0), (0, 1)} = [(0, 0)]"
proof -
  have w: "1 \<le> GRID_W" and h: "1 \<le> GRID_H"
    by (simp_all add: GRID_W_def GRID_H_def)
  have open_cell: "\<exists>d \<in> set (neighbors (0, 0)). in_bounds GRID_W GRID_H d \<and> d \<notin> {}"
    by (simp add: neighbors_def in_bounds_def GRID_W_def GRID_H_def)
  have boxed: "\<not> (\<exists>d \<in> set (neighbors (0, 0)).
                   in_bounds GRID_W GRID_H d \<and> d \<notin> {(1, 0), (0, 1)})"
    by (simp add: neighbors_def in_bounds_def GRID_W_def GRID_H_def)
  have v: "valid_moves GRID_W GRID_H (0, 0) {} = [(1, 0), (0, 1)]"
    by (simp add: valid_moves_def neighbors_def in_bounds_def GRID_W_def GRID_H_def)
  from valid_moves_legal [OF w h, of "(0, 0)" "{}"]
  have "(\<exists>d \<in> set (neighbors (0, 0)). in_bounds GRID_W GRID_H d \<and> d \<notin> {}) \<longrightarrow>
        (\<forall>d \<in> set (valid_moves GRID_W GRID_H (0, 0) {}).
           in_bounds GRID_W GRID_H d \<and> d \<notin> {}
           \<and> \<bar>fst d - fst ((0, 0)::vec)\<bar> + \<bar>snd d - snd ((0, 0)::vec)\<bar> = 1)"
    by (rule conjunct1 [OF conjunct2])
  with open_cell
  have "\<forall>d \<in> set (valid_moves GRID_W GRID_H (0, 0) {}).
         in_bounds GRID_W GRID_H d \<and> d \<notin> {}
         \<and> \<bar>fst d - fst ((0, 0)::vec)\<bar> + \<bar>snd d - snd ((0, 0)::vec)\<bar> = 1"
    by (rule rev_mp)
  then have inb: "in_bounds GRID_W GRID_H (1, 0) \<and> in_bounds GRID_W GRID_H (0, 1)"
    unfolding v by simp
  from valid_moves_legal [OF w h, of "(0, 0)" "{(1, 0), (0, 1)}"]
  have "\<not> (\<exists>d \<in> set (neighbors (0, 0)).
              in_bounds GRID_W GRID_H d \<and> d \<notin> {(1, 0), (0, 1)}) \<longrightarrow>
        valid_moves GRID_W GRID_H (0, 0) {(1, 0), (0, 1)} = [(0, 0)]"
    by (rule conjunct2 [OF conjunct2])
  with boxed have "valid_moves GRID_W GRID_H (0, 0) {(1, 0), (0, 1)} = [(0, 0)]"
    by (rule rev_mp)
  with w h v inb show ?thesis by blast
qed

section \<open>The Monte Carlo aggregate\<close>

text \<open>
  C3: \<open>monte_carlo\<close> always returns a pair and never raises; with \<open>meets\<close> and \<open>tot\<close> the
  counters left by the trial loop, the meet rate is \<open>meets / trials\<close> (0.0 when
  \<open>trials\<close> is 0, where nothing is divided), the average is \<open>tot / meets\<close> when
  \<open>meets > 0\<close> and the infinity sentinel when \<open>meets = 0\<close>.
\<close>

theorem monte_carlo_aggregate:
  "\<exists>meets tot g'.
     mc_trials W H (nat trials) max_steps 0 0 g = Inr (meets, tot, g')
     \<and> 0 \<le> meets
     \<and> (\<exists>avg rate.
          monte_carlo W H s trials max_steps g = Inr ((avg, rate), g')
          \<and> (trials \<noteq> 0 \<longrightarrow> rate = Finite (rat_of_int meets / rat_of_int trials))
          \<and> (trials = 0 \<longrightarrow> rate = Finite 0)
          \<and> (0 < meets \<longrightarrow> avg = Finite (rat_of_int tot / rat_of_int meets))
          \<and> (meets = 0 \<longrightarrow> avg = PosInf))"
proof -
  from mc_trials_result [of W H "nat trials" max_steps 0 0 g]
  obtain meets tot g' where
    r: "mc_trials W H (nat trials) max_steps 0 0 g = Inr (meets, tot, g')"
    and m: "0 \<le> meets"
    by blast
  have "\<exists>avg rate.
          monte_carlo W H s trials max_steps g = Inr ((avg, rate), g')
          \<and> (trials \<noteq> 0 \<longrightarrow> rate = Finite (rat_of_int meets / rat_of_int trials))
          \<and> (trials = 0 \<longrightarrow> rate = Finite 0)
          \<and> (0 < meets \<longrightarrow> avg = Finite (rat_of_int tot / rat_of_int meets))
          \<and> (meets = 0 \<longrightarrow> avg = PosInf)"
    by (simp add: monte_carlo_def r truediv_def)
  with r m show ?thesis by blast
qed

theorem monte_carlo_aggregate_witness:
  "(\<exists>g'. monte_carlo GRID_W GRID_H (new_game GRID_W GRID_H) 2 11 walk_draws
            = Inr ((Finite 11, Finite (1 / 2)), g'))
   \<and> (\<exists>g'. monte_carlo GRID_W GRID_H (new_game GRID_W GRID_H) 2 1 walk_draws
            = Inr ((PosInf, Finite 0), g'))
   \<and> (\<exists>g'. monte_carlo GRID_W GRID_H (new_game GRID_W GRID_H) 0 11 walk_draws
            = Inr ((PosInf, Finite 0), g'))"
proof (intro conjI)
  from monte_carlo_aggregate [of GRID_W GRID_H 2 11 walk_draws "new_game GRID_W GRID_H"]
  obtain meets tot g' avg rate where
    "mc_trials GRID_W GRID_H (nat 2) 11 0 0 walk_draws = Inr (meets, tot, g')"
    and mc: "monte_carlo GRID_W GRID_H (new_game GRID_W GRID_H) 2 11 walk_draws
               = Inr ((avg, rate), g')"
    and rate: "(2::int) \<noteq> 0 \<longrightarrow> rate = Finite (rat_of_int meets / rat_of_int 2)"
    and avg: "0 < meets \<longrightarrow> avg = Finite (rat_of_int tot / rat_of_int meets)"
    by blast
  then have "meets = 1" and "tot = 11"
    by (simp_all add: walk_batch)
  with rate avg have "rate = Finite (1 / 2)" and "avg = Finite 11"
    by simp_all
  with mc show "\<exists>g'. monte_carlo GRID_W GRID_H (new_game GRID_W GRID_H) 2 11 walk_draws
                   = Inr ((Finite 11, Finite (1 / 2)), g')"
    by blast
next
  from monte_carlo_aggregate [of GRID_W GRID_H 2 1 walk_draws "new_game GRID_W GRID_H"]
  obtain meets tot g' avg rate where
    "mc_trials GRID_W GRID_H (nat 2) 1 0 0 walk_draws = Inr (meets, tot, g')"
    and mc: "monte_carlo GRID_W GRID_H (new_game GRID_W GRID_H) 2 1 walk_draws
               = Inr ((avg, rate), g')"
    and rate: "(2::int) \<noteq> 0 \<longrightarrow> rate = Finite (rat_of_int meets / rat_of_int 2)"
    and avg: "meets = 0 \<longrightarrow> avg = PosInf"
    by blast
  then have "meets = 0"
    by (simp add: walk_batch_short)
  with rate avg have "rate = Finite 0" and "avg = PosInf"
    by simp_all
  with mc show "\<exists>g'. monte_carlo GRID_W GRID_H (new_game GRID_W GRID_H) 2 1 walk_draws
                   = Inr ((PosInf, Finite 0), g')"
    by blast
next
  from monte_carlo_aggregate [of GRID_W GRID_H 0 11 walk_draws "new_game GRID_W GRID_H"]
  obtain meets tot g' avg rate where
    "mc_trials GRID_W GRID_H (nat 0) 11 0 0 walk_draws = Inr (meets, tot, g')"
    and mc: "monte_carlo GRID_W GRID_H (new_game GRID_W GRID_H) 0 11 walk_draws
               = Inr ((avg, rate), g')"
    and rate: "(0::int) = 0 \<longrightarrow> rate = Finite 0"
    and avg: "meets = 0 \<longrightarrow> avg = PosInf"
    by blast
  then have "meets = 0"
    by simp
  with rate avg have "rate = Finite 0" and "avg = PosInf"
    by simp_all
  with mc show "\<exists>g'. monte_carlo GRID_W GRID_H (new_game GRID_W GRID_H) 0 11 walk_draws
                   = Inr ((PosInf, Finite 0), g')"
    by blast
qed

text \<open>
  C4, as the code has it: with a zero or negative trial count or step cap,
  \<open>monte_carlo\<close> raises nothing. It returns the infinity sentinel as average and 0.0
  as meet rate, and draws nothing from the random source.
\<close>

theorem monte_carlo_nonpositive_config:
  assumes "trials \<le> 0 \<or> max_steps \<le> 0"
  shows "monte_carlo W H s trials max_steps g = Inr ((PosInf, Finite 0), g)"
proof (cases "trials \<le> 0")
  case True
  then have "nat trials = 0" by simp
  then show ?thesis by (simp add: monte_carlo_def truediv_def)
next
  case False
  with assms have "max_steps \<le> 0" by simp
  then show ?thesis by (simp add: monte_carlo_def truediv_def mc_trials_no_steps)
qed

theorem monte_carlo_nonpositive_config_witness:
  "((-3::int) \<le> 0 \<or> MC_MAX_STEPS \<le> 0)
   \<and> monte_carlo GRID_W GRID_H (new_game GRID_W GRID_H) (-3) MC_MAX_STEPS zero_draws
       = Inr ((PosInf, Finite 0), zero_draws)
   \<and> (MC_TRIALS \<le> 0 \<or> (0::int) \<le> 0)
   \<and> monte_carlo GRID_W GRID_H (new_game GRID_W GRID_H) MC_TRIALS 0 zero_draws
       = Inr ((PosInf, Finite 0), zero_draws)"
  using monte_carlo_nonpositive_config
          [of "-3" MC_MAX_STEPS GRID_W GRID_H "new_game GRID_W GRID_H" zero_draws]
        monte_carlo_nonpositive_config
          [of MC_TRIALS 0 GRID_W GRID_H "new_game GRID_W GRID_H" zero_draws]
  by simp

text \<open>
  C4 as stated fails: with 0 trials and the default cap the call returns a result
  rather than an error.
\<close>

theorem monte_carlo_zero_trials_counterexample:
  "\<not> isl (monte_carlo GRID_W GRID_H (new_game GRID_W GRID_H) 0 MC_MAX_STEPS zero_draws)
   \<and> monte_carlo GRID_W GRID_H (new_game GRID_W GRID_H) 0 MC_MAX_STEPS zero_draws
       = Inr ((PosInf, Finite 0), zero_draws)"
  by (simp add: monte_carlo_def)

text \<open>
  C5: for a trial count and a step cap of at least 1, the meet rate lies in [0,1],
  and the average, when it is a number, lies between 1 and the step cap.
\<close>

theorem monte_carlo_bounds:
  assumes "1 \<le> trials" and "1 \<le> max_steps"
  shows "\<exists>avg rate g'.
     monte_carlo W H s trials max_steps g = Inr ((avg, rate), g')
     \<and> (\<exists>r. rate = Finite r \<and> 0 \<le> r \<and> r \<le> 1)
     \<and> (\<forall>x. avg = Finite x \<longrightarrow> 1 \<le> x \<and> x \<le> rat_of_int max_steps)"
proof -
  from mc_trials_result [of W H "nat trials" max_steps 0 0 g]
  obtain meets tot g' where
    r: "mc_trials W H (nat trials) max_steps 0 0 g = Inr (meets, tot, g')"
    and m: "0 \<le> meets" "meets \<le> int (nat trials)"
    and t: "meets \<le> tot" "tot \<le> meets * int (nat max_steps)"
    by auto
  from assms m have mt: "meets \<le> trials" by simp
  from assms t have tm: "tot \<le> meets * max_steps" by simp
  have tr: "trials \<noteq> 0" using assms by simp
  have rate: "0 \<le> rat_of_int meets / rat_of_int trials
              \<and> rat_of_int meets / rat_of_int trials \<le> 1"
  proof
    show "0 \<le> rat_of_int meets / rat_of_int trials"
      using m assms by simp
    have "rat_of_int meets \<le> rat_of_int trials" using mt by simp
    moreover have "0 < rat_of_int trials" using assms by simp
    ultimately show "rat_of_int meets / rat_of_int trials \<le> 1"
      by (simp add: divide_le_eq)
  qed
  show ?thesis
  proof (cases "meets = 0")
    case True
    then have "monte_carlo W H s trials max_steps g
                 = Inr ((PosInf, Finite (rat_of_int meets / rat_of_int trials)), g')"
      by (simp add: monte_carlo_def r truediv_def tr)
    with rate show ?thesis by simp
  next
    case False
    with m have pos: "0 < meets" by simp
    then have qpos: "0 < rat_of_int meets" by simp
    have mc: "monte_carlo W H s trials max_steps g
                = Inr ((Finite (rat_of_int tot / rat_of_int meets),
                        Finite (rat_of_int meets / rat_of_int trials)), g')"
      using False by (simp add: monte_carlo_def r truediv_def tr)
    have "rat_of_int meets \<le> rat_of_int tot" using t by simp
    then have lo: "1 \<le> rat_of_int tot / rat_of_int meets"
      using qpos by (simp add: le_divide_eq)
    have "rat_of_int tot \<le> rat_of_int (meets * max_steps)"
      using tm by (simp only: of_int_le_iff)
    then have "rat_of_int tot \<le> rat_of_int max_steps * rat_of_int meets"
      by (simp add: mult.commute)
    then have hi: "rat_of_int tot / rat_of_int meets \<le> rat_of_int max_steps"
      using qpos by (simp add: divide_le_eq)
    from mc rate lo hi show ?thesis by simp
  qed
qed

theorem monte_carlo_bounds_witness:
  "(1::int) \<le> 2 \<and> (1::int) \<le> 11
   \<and> (\<exists>g'. monte_carlo GRID_W GRID_H (new_game GRID_W GRID_H) 2 11 walk_draws
            = Inr ((Finite 11, Finite (1 / 2)), g'))
   \<and> (0::rat) \<le> 1 / 2 \<and> (1 / 2 :: rat) \<le> 1 \<and> (1::rat) \<le> 11 \<and> (11::rat) \<le> rat_of_int 11"
proof -
  have t: "(1::int) \<le> 2" and m: "(1::int) \<le> 11"
    by simp_all
  have v: "monte_carlo GRID_W GRID_H (new_game GRID_W GRID_H) 2 11 walk_draws
             = Inr ((Finite 11, Finite (1 / 2)), Rng (draws walk_draws) 44)"
    by (simp add: monte_carlo_def walk_batch truediv_def)
  from monte_carlo_bounds [OF t m, of GRID_W GRID_H "new_game GRID_W GRID_H" walk_draws]
  have "(0::rat) \<le> 1 / 2 \<and> (1 / 2 :: rat) \<le> 1 \<and> (1::rat) \<le> 11 \<and> (11::rat) \<le> rat_of_int 11"
    unfolding v by simp
  with t m v show ?thesis by blast
qed

section \<open>Turns of the interactive game\<close>

text \<open>
  C6: in one turn of \<open>step_random_vs_random\<close> on a round that has not met, and in one
  iteration of the trial loop of \<open>monte_carlo\<close>, each agent's new position is drawn from
  the legal moves of its own position before the turn. The game step equals the
  specification's \<open>advanceTurn\<close> on the pre-turn agents with both results stored at
  once: the second draw reads nothing that the first one wrote except the generator.
\<close>

theorem turn_from_snapshot:
  "(\<not> met s \<longrightarrow>
      (\<exists>na g1 nb g2.
         random_step W H (pos (blue s)) (walls s) g = Inr (na, g1)
         \<and> random_step W H (pos (red s)) (walls s) g1 = Inr (nb, g2)
         \<and> na \<in> set (valid_moves W H (pos (blue s)) (walls s))
         \<and> nb \<in> set (valid_moves W H (pos (red s)) (walls s))
         \<and> spec_advanceTurn W H (blue s) (red s) (walls s) g
             = Inr ((blue s)\<lparr>prev := pos (blue s), pos := na\<rparr>,
                    (red s)\<lparr>prev := pos (red s), pos := nb\<rparr>,
                    (na = nb \<or> (na = pos (red s) \<and> nb = pos (blue s))), g2)
         \<and> step_random_vs_random W H s g
             = Inr (s\<lparr>blue := (blue s)\<lparr>prev := pos (blue s), pos := na\<rparr>,
                      red := (red s)\<lparr>prev := pos (red s), pos := nb\<rparr>,
                      turns := turns s + 1,
                      met := (na = nb \<or> (na = pos (red s) \<and> nb = pos (blue s)))\<rparr>, g2)))
   \<and> (\<exists>a' g1 b' g2.
         random_step W H a {} g = Inr (a', g1)
         \<and> random_step W H b {} g1 = Inr (b', g2)
         \<and> a' \<in> set (valid_moves W H a {})
         \<and> b' \<in> set (valid_moves W H b {})
         \<and> mc_steps W H (Suc n) a b ap bp steps meets tot g
             = (if a' = b' \<or> (a' = bp \<and> b' = ap)
                then Inr (meets + 1, tot + (steps + 1), g2)
                else mc_steps W H n a' b' a b (steps + 1) meets tot g2))"
proof (intro conjI impI)
  assume nm: "\<not> met s"
  obtain na g1 where a: "random_step W H (pos (blue s)) (walls s) g = Inr (na, g1)"
    and am: "na \<in> set (valid_moves W H (pos (blue s)) (walls s))"
    using random_step_ex [of W H "pos (blue s)" "walls s" g] by blast
  obtain nb g2 where b: "random_step W H (pos (red s)) (walls s) g1 = Inr (nb, g2)"
    and bm: "nb \<in> set (valid_moves W H (pos (red s)) (walls s))"
    using random_step_ex [of W H "pos (red s)" "walls s" g1] by blast
  have sp: "spec_advanceTurn W H (blue s) (red s) (walls s) g
             = Inr ((blue s)\<lparr>prev := pos (blue s), pos := na\<rparr>,
                    (red s)\<lparr>prev := pos (red s), pos := nb\<rparr>,
                    (na = nb \<or> (na = pos (red s) \<and> nb = pos (blue s))), g2)"
    by (simp add: spec_advanceTurn_def a b encounter_def)
  have st: "step_random_vs_random W H s g
             = Inr (s\<lparr>blue := (blue s)\<lparr>prev := pos (blue s), pos := na\<rparr>,
                      red := (red s)\<lparr>prev := pos (red s), pos := nb\<rparr>,
                      turns := turns s + 1,
                      met := (na = nb \<or> (na = pos (red s) \<and> nb = pos (blue s)))\<rparr>, g2)"
    using nm by (simp add: step_random_vs_random_def a b encounter_def)
  from a b am bm sp st
  show "\<exists>na g1 nb g2.
         random_step W H (pos (blue s)) (walls s) g = Inr (na, g1)
         \<and> random_step W H (pos (red s)) (walls s) g1 = Inr (nb, g2)
         \<and> na \<in> set (valid_moves W H (pos (blue s)) (walls s))
         \<and> nb \<in> set (valid_moves W H (pos (red s)) (walls s))
         \<and> spec_advanceTurn W H (blue s) (red s) (walls s) g
             = Inr ((blue s)\<lparr>prev := pos (blue s), pos := na\<rparr>,
                    (red s)\<lparr>prev := pos (red s), pos := nb\<rparr>,
                    (na = nb \<or> (na = pos (red s) \<and> nb = pos (blue s))), g2)
         \<and> step_random_vs_random W H s g
             = Inr (s\<lparr>blue := (blue s)\<lparr>prev := pos (blue s), pos := na\<rparr>,
                      red := (red s)\<lparr>prev := pos (red s), pos := nb\<rparr>,
                      turns := turns s + 1,
                      met := (na = nb \<or> (na = pos (red s) \<and> nb = pos (blue s)))\<rparr>, g2)"
    by blast
next
  obtain a' g1 where a: "random_step W H a {} g = Inr (a', g1)"
    and am: "a' \<in> set (valid_moves W H a {})"
    using random_step_ex [of W H a "{}" g] by blast
  obtain b' g2 where b: "random_step W H b {} g1 = Inr (b', g2)"
    and bm: "b' \<in> set (valid_moves W H b {})"
    using random_step_ex [of W H b "{}" g1] by blast
  have "mc_steps W H (Suc n) a b ap bp steps meets tot g
          = (if a' = b' \<or> (a' = bp \<and> b' = ap)
             then Inr (meets + 1, tot + (steps + 1), g2)
             else mc_steps W H n a' b' a b (steps + 1) meets tot g2)"
    by (simp add: a b)
  with a b am bm
  show "\<exists>a' g1 b' g2.
         random_step W H a {} g = Inr (a', g1)
         \<and> random_step W H b {} g1 = Inr (b', g2)
         \<and> a' \<in> set (valid_moves W H a {})
         \<and> b' \<in> set (valid_moves W H b {})
         \<and> mc_steps W H (Suc n) a b ap bp steps meets tot g
             = (if a' = b' \<or> (a' = bp \<and> b' = ap)
                then Inr (meets + 1, tot + (steps + 1), g2)
                else mc_steps W H n a' b' a b (steps + 1) meets tot g2)"
    by blast
qed

theorem turn_from_snapshot_witness:
  "\<not> met (new_game GRID_W GRID_H)
   \<and> step_random_vs_random GRID_W GRID_H (new_game GRID_W GRID_H) zero_draws
       = Inr ((new_game GRID_W GRID_H)
                \<lparr>blue := \<lparr>pos = (1, 0), prev = (0, 0), color = BLUE\<rparr>,
                  red := \<lparr>pos = (10, 11), prev = (11, 11), color = RED\<rparr>,
                  turns := 1, met := False\<rparr>,
              Rng (draws zero_draws) 2)"
proof -
  let ?s = "new_game GRID_W GRID_H"
  have nm: "\<not> met ?s" by (simp add: new_game_def)
  have pb: "pos (blue ?s) = (0, 0)" and pr: "pos (red ?s) = (11, 11)" and w: "walls ?s = {}"
    by (simp_all add: new_game_def GRID_W_def GRID_H_def)
  from turn_from_snapshot [of ?s GRID_W GRID_H zero_draws] nm
  obtain na g1 nb g2 where
    a: "random_step GRID_W GRID_H (pos (blue ?s)) (walls ?s) zero_draws = Inr (na, g1)"
    and b: "random_step GRID_W GRID_H (pos (red ?s)) (walls ?s) g1 = Inr (nb, g2)"
    and st: "step_random_vs_random GRID_W GRID_H ?s zero_draws
             = Inr (?s\<lparr>blue := (blue ?s)\<lparr>prev := pos (blue ?s), pos := na\<rparr>,
                      red := (red ?s)\<lparr>prev := pos (red ?s), pos := nb\<rparr>,
                      turns := turns ?s + 1,
                      met := (na = nb \<or> (na = pos (red ?s) \<and> nb = pos (blue ?s)))\<rparr>, g2)"
    by blast
  from a have na: "na = (1, 0)" and g1: "g1 = Rng (draws zero_draws) 1"
    by (simp_all add: pb w zero_step_blue)
  from b have nb: "nb = (10, 11)" and g2: "g2 = Rng (draws zero_draws) 2"
    by (auto simp: pr w g1 zero_step_red)
  have "step_random_vs_random GRID_W GRID_H ?s zero_draws
       = Inr (?s\<lparr>blue := \<lparr>pos = (1, 0), prev = (0, 0), color = BLUE\<rparr>,
                  red := \<lparr>pos = (10, 11), prev = (11, 11), color = RED\<rparr>,
                  turns := 1, met := False\<rparr>,
              Rng (draws zero_draws) 2)"
    unfolding st na nb g2 by (simp add: new_game_def GRID_W_def GRID_H_def)
  with nm show ?thesis by blast
qed

text \<open>
  C7: once \<open>met\<close> is set, \<open>step_random_vs_random\<close> returns the state and the generator
  untouched. In a Monte Carlo trial the turn whose encounter test succeeds is the last
  one: the loop returns at once whatever number of iterations is left, and a trial
  that met after \<open>k\<close> recorded steps has drawn exactly \<open>2 * k\<close> times.
\<close>

theorem encounter_is_terminal:
  "(met s \<longrightarrow> step_random_vs_random W H s g = Inr (s, g))
   \<and> (random_step W H a {} g = Inr (a', g1) \<and> random_step W H b {} g1 = Inr (b', g2)
        \<and> (a' = b' \<or> (a' = bp \<and> b' = ap))
      \<longrightarrow> mc_steps W H (Suc n) a b ap bp steps meets tot g
            = Inr (meets + 1, tot + (steps + 1), g2))
   \<and> (\<forall>tot' g'.
        mc_steps W H n a b ap bp steps meets tot g = Inr (meets + 1, tot', g')
        \<longrightarrow> (\<exists>k. 1 \<le> k \<and> k \<le> n \<and> tot' = tot + (steps + int k)
                 \<and> cursor g' = cursor g + 2 * k))"
proof (intro conjI impI allI)
  assume "met s"
  then show "step_random_vs_random W H s g = Inr (s, g)"
    by (simp add: step_random_vs_random_def)
next
  assume "random_step W H a {} g = Inr (a', g1) \<and> random_step W H b {} g1 = Inr (b', g2)
        \<and> (a' = b' \<or> (a' = bp \<and> b' = ap))"
  then show "mc_steps W H (Suc n) a b ap bp steps meets tot g
            = Inr (meets + 1, tot + (steps + 1), g2)"
    by auto
next
  fix tot' g'
  assume r: "mc_steps W H n a b ap bp steps meets tot g = Inr (meets + 1, tot', g')"
  from mc_steps_result [of W H n a b ap bp steps meets tot g] r
  show "\<exists>k. 1 \<le> k \<and> k \<le> n \<and> tot' = tot + (steps + int k) \<and> cursor g' = cursor g + 2 * k"
    by auto
qed

theorem encounter_is_terminal_witness:
  "met ((new_game GRID_W GRID_H)\<lparr>met := True\<rparr>)
   \<and> step_random_vs_random GRID_W GRID_H ((new_game GRID_W GRID_H)\<lparr>met := True\<rparr>) zero_draws
       = Inr ((new_game GRID_W GRID_H)\<lparr>met := True\<rparr>, zero_draws)
   \<and> mc_steps GRID_W GRID_H (Suc 5) (0, 0) (1, 0) (0, 0) (1, 0) 0 0 0 count_draws
       = Inr (0 + 1, 0 + (0 + 1), Rng (draws count_draws) 2)
   \<and> (\<exists>k. 1 \<le> k \<and> k \<le> (20::nat) \<and> (11::int) = 0 + (0 + int k)
          \<and> cursor (Rng (draws walk_draws) 22) = cursor walk_draws + 2 * k)"
proof -
  let ?s = "(new_game GRID_W GRID_H)\<lparr>met := True\<rparr>"
  have m: "met ?s" by simp
  from encounter_is_terminal [where s = ?s and W = GRID_W and H = GRID_H and g = zero_draws] m
  have one: "step_random_vs_random GRID_W GRID_H ?s zero_draws = Inr (?s, zero_draws)"
    by blast
  have "random_step GRID_W GRID_H (0, 0) {} count_draws = Inr ((1, 0), Rng (draws count_draws) 1)
        \<and> random_step GRID_W GRID_H (1, 0) {} (Rng (draws count_draws) 1)
            = Inr ((0, 0), Rng (draws count_draws) 2)
        \<and> ((1, 0) = ((0, 0)::vec) \<or> ((1, 0) = ((1, 0)::vec) \<and> (0, 0) = ((0, 0)::vec)))"
    using count_step_a count_step_b by simp
  with encounter_is_terminal [where W = GRID_W and H = GRID_H and g = count_draws
      and a = "(0, 0)" and b = "(1, 0)" and ap = "(0, 0)" and bp = "(1, 0)"
      and a' = "(1, 0)" and b' = "(0, 0)" and ?g1.0 = "Rng (draws count_draws) 1"
      and ?g2.0 = "Rng (draws count_draws) 2" and n = 5 and steps = 0 and meets = 0
      and tot = 0]
  have two: "mc_steps GRID_W GRID_H (Suc 5) (0, 0) (1, 0) (0, 0) (1, 0) 0 0 0 count_draws
       = Inr (0 + 1, 0 + (0 + 1), Rng (draws count_draws) 2)"
    by blast
  from encounter_is_terminal [where W = GRID_W and H = GRID_H and g = walk_draws
      and a = "(0, 0)" and b = "(11, 11)" and ap = "(0, 0)" and bp = "(11, 11)"
      and n = 20 and steps = 0 and meets = 0 and tot = 0] walk_trial_meets_early
  have three: "\<exists>k. 1 \<le> k \<and> k \<le> (20::nat) \<and> (11::int) = 0 + (0 + int k)
          \<and> cursor (Rng (draws walk_draws) 22) = cursor walk_draws + 2 * k"
    by blast
  from m one two three show ?thesis by blast
qed

text \<open>
  C10: in \<open>step_player_vs_random\<close> on a round that has not met, a player direction
  that leads out of bounds or into a wall leaves the player's position unchanged and
  sets its previous position to it; the random agent still takes one legal random
  step, the turn counter goes up by exactly 1 and \<open>met\<close> is the encounter test of the
  new pair.
\<close>

theorem player_illegal_move_consumes_turn:
  assumes "\<not> met s"
    and "\<not> (in_bounds W H (fst (pos (blue s)) + fst d, snd (pos (blue s)) + snd d)
            \<and> (fst (pos (blue s)) + fst d, snd (pos (blue s)) + snd d) \<notin> walls s)"
  shows "\<exists>q g1 s'.
           random_step W H (pos (red s)) (walls s) g = Inr (q, g1)
           \<and> q \<in> set (valid_moves W H (pos (red s)) (walls s))
           \<and> step_player_vs_random W H s d g = Inr (s', g1)
           \<and> pos (blue s') = pos (blue s) \<and> prev (blue s') = pos (blue s)
           \<and> pos (red s') = q \<and> prev (red s') = pos (red s)
           \<and> turns s' = turns s + 1
           \<and> met s' = encounter (blue s') (red s')
           \<and> walls s' = walls s"
proof -
  obtain q g1 where r: "random_step W H (pos (red s)) (walls s) g = Inr (q, g1)"
    and qm: "q \<in> set (valid_moves W H (pos (red s)) (walls s))"
    using random_step_ex [of W H "pos (red s)" "walls s" g] by blast
  let ?s' = "s\<lparr>blue := (blue s)\<lparr>prev := pos (blue s)\<rparr>,
               red := (red s)\<lparr>prev := pos (red s), pos := q\<rparr>,
               turns := turns s + 1,
               met := encounter ((blue s)\<lparr>prev := pos (blue s)\<rparr>)
                                ((red s)\<lparr>prev := pos (red s), pos := q\<rparr>)\<rparr>"
  have "step_player_vs_random W H s d g = Inr (?s', g1)"
    using assms by (auto simp: step_player_vs_random_def Let_def r)
  moreover have "pos (blue ?s') = pos (blue s) \<and> prev (blue ?s') = pos (blue s)
           \<and> pos (red ?s') = q \<and> prev (red ?s') = pos (red s)
           \<and> turns ?s' = turns s + 1
           \<and> met ?s' = encounter (blue ?s') (red ?s')
           \<and> walls ?s' = walls s"
    by simp
  ultimately show ?thesis using r qm by blast
qed

theorem player_illegal_move_consumes_turn_witness:
  "\<not> met (new_game GRID_W GRID_H)
   \<and> \<not> (in_bounds GRID_W GRID_H (- 1, 0) \<and> (- 1, 0) \<notin> walls (new_game GRID_W GRID_H))
   \<and> (\<exists>s' g1.
        step_player_vs_random GRID_W GRID_H (new_game GRID_W GRID_H) (- 1, 0) zero_draws
          = Inr (s', g1)
        \<and> pos (blue s') = (0, 0) \<and> prev (blue s') = (0, 0)
        \<and> pos (red s') = (10, 11) \<and> prev (red s') = (11, 11)
        \<and> turns s' = 1 \<and> met s' = False)"
proof -
  let ?s = "new_game GRID_W GRID_H"
  have nm: "\<not> met ?s" by (simp add: new_game_def)
  have pb: "pos (blue ?s) = (0, 0)" and pr: "pos (red ?s) = (11, 11)" and w: "walls ?s = {}"
    and tu: "turns ?s = 0"
    by (simp_all add: new_game_def GRID_W_def GRID_H_def)
  have ill: "\<not> (in_bounds GRID_W GRID_H (- 1, 0) \<and> (- 1, 0) \<notin> walls ?s)"
    by (simp add: in_bounds_def)
  then have ill': "\<not> (in_bounds GRID_W GRID_H
                       (fst (pos (blue ?s)) + fst ((- 1, 0)::vec),
                        snd (pos (blue ?s)) + snd ((- 1, 0)::vec))
                     \<and> (fst (pos (blue ?s)) + fst ((- 1, 0)::vec),
                        snd (pos (blue ?s)) + snd ((- 1, 0)::vec)) \<notin> walls ?s)"
    by (simp add: pb)
  from player_illegal_move_consumes_turn [OF nm ill', of zero_draws]
  obtain q g1 s' where
    r: "random_step GRID_W GRID_H (pos (red ?s)) (walls ?s) zero_draws = Inr (q, g1)"
    and st: "step_player_vs_random GRID_W GRID_H ?s (- 1, 0) zero_draws = Inr (s', g1)"
    and f: "pos (blue s') = pos (blue ?s)" "prev (blue s') = pos (blue ?s)"
           "pos (red s') = q" "prev (red s') = pos (red ?s)"
           "turns s' = turns ?s + 1" "met s' = encounter (blue s') (red s')"
    by blast
  have zd: "zero_draws = Rng (draws zero_draws) 0" by (simp add: zero_draws_def)
  from r have q: "q = (10, 11)"
    using zero_step_red [of 0] by (simp add: pr w zd [symmetric])
  have "pos (blue s') = (0, 0) \<and> prev (blue s') = (0, 0)
        \<and> pos (red s') = (10, 11) \<and> prev (red s') = (11, 11)
        \<and> turns s' = 1 \<and> met s' = False"
    using f by (simp add: q pb pr tu encounter_def)
  with st nm ill show ?thesis by blast
qed

section \<open>What the estimator depends on\<close>

text \<open>
  C8: \<open>monte_carlo\<close> is a function of the trial count, the step cap and the draws the
  random source will deliver. Two runs whose sources deliver the same draws from
  where they stand return the same pair \<open>(avg_steps, meet_rate)\<close>, whatever the two
  game objects hold, and leave sources that again deliver the same draws; the game
  object is neither read nor written.
\<close>

theorem monte_carlo_deterministic:
  assumes "\<forall>i. draws g1 (cursor g1 + i) = draws g2 (cursor g2 + i)"
  shows "\<exists>stats h1 h2.
           monte_carlo W H s1 trials max_steps g1 = Inr (stats, h1)
           \<and> monte_carlo W H s2 trials max_steps g2 = Inr (stats, h2)
           \<and> (\<forall>i. draws h1 (cursor h1 + i) = draws h2 (cursor h2 + i))"
proof -
  from mc_trials_same [OF assms, of W H "nat trials" max_steps 0 0]
  obtain m t h1 h2 where
    r1: "mc_trials W H (nat trials) max_steps 0 0 g1 = Inr (m, t, h1)"
    and r2: "mc_trials W H (nat trials) max_steps 0 0 g2 = Inr (m, t, h2)"
    and h: "\<forall>i. draws h1 (cursor h1 + i) = draws h2 (cursor h2 + i)"
    by blast
  let ?rate = "if trials \<noteq> 0 then Finite (rat_of_int m / rat_of_int trials) else Finite 0"
  let ?avg = "if m \<noteq> 0 then Finite (rat_of_int t / rat_of_int m) else PosInf"
  have "monte_carlo W H s1 trials max_steps g1 = Inr ((?avg, ?rate), h1)"
    by (simp add: monte_carlo_def r1 truediv_def)
  moreover have "monte_carlo W H s2 trials max_steps g2 = Inr ((?avg, ?rate), h2)"
    by (simp add: monte_carlo_def r2 truediv_def)
  ultimately show ?thesis using h by blast
qed

theorem monte_carlo_deterministic_witness:
  "(\<exists>h. monte_carlo GRID_W GRID_H (new_game GRID_W GRID_H) 2 11 walk_draws
          = Inr ((Finite 11, Finite (1 / 2)), h))
   \<and> (\<exists>h. monte_carlo GRID_W GRID_H
            ((new_game GRID_W GRID_H)\<lparr>turns := 7, obstacles_on := True, walls := {(5, 5)}\<rparr>)
            2 11 (Rng (draws walk_draws) 0)
          = Inr ((Finite 11, Finite (1 / 2)), h))"
proof -
  have same: "\<forall>i. draws walk_draws (cursor walk_draws + i)
                 = draws (Rng (draws walk_draws) 0) (cursor (Rng (draws walk_draws) 0) + i)"
    by (simp add: walk_draws_def)
  have v: "monte_carlo GRID_W GRID_H (new_game GRID_W GRID_H) 2 11 walk_draws
             = Inr ((Finite 11, Finite (1 / 2)), Rng (draws walk_draws) 44)"
    by (simp add: monte_carlo_def walk_batch truediv_def)
  from monte_carlo_deterministic [OF same, of GRID_W GRID_H "new_game GRID_W GRID_H" 2 11
      "(new_game GRID_W GRID_H)\<lparr>turns := 7, obstacles_on := True, walls := {(5, 5)}\<rparr>"]
  obtain stats h1 h2 where
    "monte_carlo GRID_W GRID_H (new_game GRID_W GRID_H) 2 11 walk_draws = Inr (stats, h1)"
    and r: "monte_carlo GRID_W GRID_H
              ((new_game GRID_W GRID_H)\<lparr>turns := 7, obstacles_on := True, walls := {(5, 5)}\<rparr>)
              2 11 (Rng (draws walk_draws) 0) = Inr (stats, h2)"
    by blast
  with v have "stats = (Finite 11, Finite (1 / 2))" by simp
  with r v show ?thesis by blast
qed

text \<open>
  C9: whatever the game object holds, \<open>monte_carlo\<close> returns the aggregate of the
  open-field counts: every trial is the walk of two fresh agents from (0,0) and
  (W-1,H-1), with the previous positions equal to these at the first test, and every
  draw of every turn is taken from the legal moves under the empty wall set. So the
  result does not change with \<open>obstacles_on\<close> or \<open>walls\<close>.
\<close>

theorem monte_carlo_open_field:
  "monte_carlo W H s trials max_steps g
     = (case open_field_counts W H (nat max_steps) (nat trials) g of
          (m, st, g') \<Rightarrow>
            Inr ((if m = 0 then PosInf else Finite (rat_of_int st / rat_of_int m),
                  if trials = 0 then Finite 0 else Finite (rat_of_int m / rat_of_int trials)),
                 g'))
   \<and> monte_carlo W H (s\<lparr>obstacles_on := ob, walls := ws\<rparr>) trials max_steps g
       = monte_carlo W H s trials max_steps g"
  by (simp add: monte_carlo_def mc_trials_open_field_counts truediv_def split: prod.splits)

theorem monte_carlo_open_field_witness:
  "open_field_walk GRID_W GRID_H zero_draws (Suc 0)
     = ((1, 0), (10, 11), Rng (draws zero_draws) 2)
   \<and> open_field_counts GRID_W GRID_H 11 2 walk_draws = (1, 11, Rng (draws walk_draws) 44)
   \<and> monte_carlo GRID_W GRID_H
        ((new_game GRID_W GRID_H)\<lparr>obstacles_on := True, walls := {(1, 0), (0, 1)}\<rparr>)
        2 11 walk_draws
       = Inr ((Finite 11, Finite (1 / 2)), Rng (draws walk_draws) 44)"
proof -
  let ?s = "new_game GRID_W GRID_H"
  have v: "monte_carlo GRID_W GRID_H ?s 2 11 walk_draws
             = Inr ((Finite 11, Finite (1 / 2)), Rng (draws walk_draws) 44)"
    by (simp add: monte_carlo_def walk_batch truediv_def)
  obtain m0 st0 g0 where
    c: "open_field_counts GRID_W GRID_H (nat 11) (nat 2) walk_draws = (m0, st0, g0)"
    by (cases "open_field_counts GRID_W GRID_H (nat 11) (nat 2) walk_draws") blast
  note t = monte_carlo_open_field [where W = GRID_W and H = GRID_H and s = ?s and trials = 2
      and max_steps = 11 and g = walk_draws and ob = True and ws = "{(1, 0), (0, 1)}"]
  note e = t [THEN conjunct1, unfolded v c prod.case]
  from e have big:
    "(if m0 = 0 then PosInf else Finite (rat_of_int st0 / rat_of_int m0)) = Finite 11
     \<and> rat_of_int m0 / 2 = 1 / 2 \<and> g0 = Rng (draws walk_draws) 44"
    by simp
  then have "rat_of_int m0 = 1" by simp
  then have m: "m0 = 1" by simp
  from big have g': "g0 = Rng (draws walk_draws) 44" by simp
  from big m have "rat_of_int st0 = 11" by simp
  then have "rat_of_int st0 = rat_of_int 11" by simp
  then have "st0 = 11" by (simp only: of_int_eq_iff)
  with c m g' have one: "open_field_counts GRID_W GRID_H 11 2 walk_draws
                           = (1, 11, Rng (draws walk_draws) 44)"
    by simp
  from t have "monte_carlo GRID_W GRID_H (?s\<lparr>obstacles_on := True, walls := {(1, 0), (0, 1)}\<rparr>)
                 2 11 walk_draws
               = monte_carlo GRID_W GRID_H ?s 2 11 walk_draws"
    by (rule conjunct2)
  with v one open_field_walk_first_turn show ?thesis by simp
qed

end
